theory Spec2Isabelle
  imports
    Main
    "HOL-Library.Char_ord"
    "HOL-Library.List_Lexorder"
    "HOL-Library.Product_Lexorder"
    "HOL-Library.Multiset"
begin

section \<open>Python values\<close>

text \<open>
  A Python \<open>str\<close> is modelled as a \<^typ>\<open>string\<close>: a list of 8-bit characters, each read as
  the code point of that number (the Latin-1 range). A value that may be \<open>None\<close> is a
  \<^typ>\<open>string option\<close>. The order on strings is the lexicographic order on code points, which
  is what SQLite's BINARY collation on TEXT and Python's \<open><\<close> on \<open>str\<close> compute.

  The dictionaries built by \<open>parse_rss\<close> map a field name to a string or to \<open>None\<close>;
  a key that is absent and a key that is present with value \<open>None\<close> are different states
  (\<open>dict.setdefault\<close> tells them apart), so a dictionary is a map to \<^typ>\<open>string option\<close>.
\<close>

type_synonym pydict = "string \<rightharpoonup> string option"

definition pyget :: "pydict \<Rightarrow> string \<Rightarrow> string option" where
  \<comment> \<open>\<open>d.get(k)\<close>: \<open>None\<close> when the key is absent, the stored value otherwise\<close>
  "pyget d k = (case d k of None \<Rightarrow> None | Some v \<Rightarrow> v)"

definition setdefault :: "pydict \<Rightarrow> string \<Rightarrow> string option \<Rightarrow> pydict" where
  \<comment> \<open>\<open>d.setdefault(k, v)\<close>: stores \<open>v\<close> only when the key is absent\<close>
  "setdefault d k v = (case d k of None \<Rightarrow> d(k \<mapsto> v) | Some _ \<Rightarrow> d)"

definition truthy :: "string option \<Rightarrow> bool" where
  \<comment> \<open>Python truth value of a \<open>str | None\<close>: false for \<open>None\<close> and for the empty string\<close>
  "truthy v = (case v of None \<Rightarrow> False | Some s \<Rightarrow> s \<noteq> [])"

definition py_or :: "string option \<Rightarrow> string option \<Rightarrow> string option" where
  \<comment> \<open>\<open>a or b\<close>\<close>
  "py_or a b = (if truthy a then a else b)"

section \<open>Timestamps: \<open>datetime.utcnow().isoformat() + "Z"\<close>\<close>

text \<open>
  A naive \<open>datetime\<close> as its seven fields. \<open>datetime.isoformat()\<close> prints
  \<open>YYYY-MM-DDTHH:MM:SS\<close> and appends \<open>.ffffff\<close> only when the microsecond field is not
  zero. Python compares naive datetimes field by field, most significant first.
\<close>

record datetime =
  year :: nat
  month :: nat
  day :: nat
  hour :: nat
  minute :: nat
  second :: nat
  microsecond :: nat

definition valid_datetime :: "datetime \<Rightarrow> bool" where
  "valid_datetime t \<longleftrightarrow>
     1 \<le> year t \<and> year t \<le> 9999 \<and> 1 \<le> month t \<and> month t \<le> 12 \<and>
     1 \<le> day t \<and> day t \<le> 31 \<and> hour t < 24 \<and> minute t < 60 \<and> second t < 60 \<and>
     microsecond t < 1000000"

definition datetime_key :: "datetime \<Rightarrow> nat \<times> nat \<times> nat \<times> nat \<times> nat \<times> nat \<times> nat" where
  "datetime_key t = (year t, month t, day t, hour t, minute t, second t, microsecond t)"

definition datetime_less :: "datetime \<Rightarrow> datetime \<Rightarrow> bool" where
  "datetime_less a b \<longleftrightarrow> datetime_key a < datetime_key b"

definition digit_char :: "nat \<Rightarrow> char" where
  "digit_char d = ''0123456789'' ! (d mod 10)"

fun zpad :: "nat \<Rightarrow> nat \<Rightarrow> string" where
  \<comment> \<open>\<open>"%0wd" % n\<close> for \<open>n < 10 ^ w\<close>, which every field of a valid datetime satisfies\<close>
  "zpad 0 n = []"
| "zpad (Suc w) n = zpad w (n div 10) @ [digit_char n]"

definition isoformat :: "datetime \<Rightarrow> string" where
  "isoformat t =
     zpad 4 (year t) @ ''-'' @ zpad 2 (month t) @ ''-'' @ zpad 2 (day t) @ ''T'' @
     zpad 2 (hour t) @ '':'' @ zpad 2 (minute t) @ '':'' @ zpad 2 (second t) @
     (if microsecond t \<noteq> 0 then ''.'' @ zpad 6 (microsecond t) else [])"

section \<open>The item store (\<open>RSSDB\<close>)\<close>

text \<open>
  A row of the table \<open>items\<close>. The column \<open>id\<close> is the rowid SQLite assigns; rows are kept
  in insertion order, which is rowid order, and no function of the program reads \<open>id\<close>.
  \<open>guid TEXT UNIQUE\<close>: an insert whose guid is not NULL and equals the guid of a stored row
  raises \<open>sqlite3.IntegrityError\<close>; NULL guids never collide.
\<close>

record row =
  guid :: "string option"
  title :: "string option"
  link :: "string option"
  published :: "string option"
  summary :: "string option"
  fetched_at :: string

datatype sql_error = IntegrityError | OverflowError

definition insert_row :: "row list \<Rightarrow> row \<Rightarrow> sql_error + row list" where
  "insert_row tbl r =
     (case guid r of
        None \<Rightarrow> Inr (tbl @ [r])
      | Some g \<Rightarrow> if Some g \<in> set (map guid tbl) then Inl IntegrityError else Inr (tbl @ [r]))"

text \<open>
  The state \<open>save_items\<close> works on: the table, and how many times the process has read the
  clock so far. The clock itself is the environment: \<open>utcnow n\<close> is the value of the
  \<open>n\<close>-th call of \<open>datetime.utcnow()\<close>. The timestamp is computed for every attempt, before
  the insert is tried, so a skipped duplicate reads the clock too.
\<close>

record store =
  items_table :: "row list"
  clock_reads :: nat

definition new_row :: "pydict \<Rightarrow> datetime \<Rightarrow> row" where
  "new_row it now =
     \<lparr>guid = pyget it ''guid'', title = pyget it ''title'', link = pyget it ''link'',
      published = pyget it ''published'', summary = pyget it ''summary'',
      fetched_at = isoformat now @ ''Z''\<rparr>"

fun save_loop :: "(nat \<Rightarrow> datetime) \<Rightarrow> pydict list \<Rightarrow> store \<Rightarrow> nat \<Rightarrow> store \<times> nat" where
  "save_loop utcnow [] db inserted = (db, inserted)"
| "save_loop utcnow (it # items) db inserted =
     (let r = new_row it (utcnow (clock_reads db));
          db' = db\<lparr>clock_reads := Suc (clock_reads db)\<rparr>
      in case insert_row (items_table db) r of
           Inr tbl \<Rightarrow> save_loop utcnow items (db'\<lparr>items_table := tbl\<rparr>) (inserted + 1)
         | Inl _ \<Rightarrow> save_loop utcnow items db' inserted)"

definition save_items :: "(nat \<Rightarrow> datetime) \<Rightarrow> store \<Rightarrow> pydict list \<Rightarrow> store \<times> nat" where
  "save_items utcnow db items = save_loop utcnow items db 0"

definition guid_unique :: "row list \<Rightarrow> bool" where
  \<comment> \<open>the UNIQUE constraint: no two rows share a guid that is not NULL\<close>
  "guid_unique tbl \<longleftrightarrow> distinct (filter (\<lambda>g. g \<noteq> None) (map guid tbl))"

definition rows_with_guid :: "string \<Rightarrow> row list \<Rightarrow> row list" where
  "rows_with_guid g tbl = filter (\<lambda>r. guid r = Some g) tbl"

section \<open>Regular expressions (the fragment of \<open>re\<close> the cleaners use)\<close>

text \<open>
  The character classes of a \<open>str\<close> pattern, on code points below 256: \<open>\s\<close> is
  \<open>str.isspace\<close>, \<open>\w\<close> is \<open>str.isalnum\<close> or the underscore, \<open>[\s\S]\<close> is any character
  and \<open>[^>]\<close> any character but \<open>>\<close>. Under \<open>re.IGNORECASE\<close> a literal matches a character
  with the same lower-case form.
\<close>

datatype cls = Space | Word | AnyChar | NotGt

definition is_space :: "char \<Rightarrow> bool" where
  "is_space c = (let n = (of_char c :: nat) in
     (9 \<le> n \<and> n \<le> 13) \<or> (28 \<le> n \<and> n \<le> 32) \<or> n = 133 \<or> n = 160)"

definition is_word :: "char \<Rightarrow> bool" where
  "is_word c = (let n = (of_char c :: nat) in
     (48 \<le> n \<and> n \<le> 57) \<or> (65 \<le> n \<and> n \<le> 90) \<or> n = 95 \<or> (97 \<le> n \<and> n \<le> 122) \<or>
     n = 170 \<or> n = 178 \<or> n = 179 \<or> n = 181 \<or> n = 185 \<or> n = 186 \<or>
     (188 \<le> n \<and> n \<le> 190) \<or> (192 \<le> n \<and> n \<le> 214) \<or> (216 \<le> n \<and> n \<le> 246) \<or> 248 \<le> n)"

definition to_lower :: "char \<Rightarrow> char" where
  "to_lower c = (let n = (of_char c :: nat) in
     if (65 \<le> n \<and> n \<le> 90) \<or> (192 \<le> n \<and> n \<le> 222 \<and> n \<noteq> 215) then char_of (n + 32) else c)"

fun in_cls :: "cls \<Rightarrow> char \<Rightarrow> bool" where
  "in_cls Space c = is_space c"
| "in_cls Word c = is_word c"
| "in_cls AnyChar c = True"
| "in_cls NotGt c = (c \<noteq> CHR ''>'')"

text \<open>
  A pattern: literal text, a greedy bounded repetition \<open>c{m,n}\<close> of a character class
  (\<open>c*\<close> is \<open>Rep c 0 None\<close>, \<open>c+\<close> is \<open>Rep c 1 None\<close>), an alternation and a concatenation.
\<close>

datatype rx = Lit string | Rep cls nat "nat option" | Alt rx rx | Cat rx rx

fun lit_match :: "bool \<Rightarrow> string \<Rightarrow> string \<Rightarrow> string option" where
  "lit_match ic [] s = Some s"
| "lit_match ic (c # cs) [] = None"
| "lit_match ic (c # cs) (d # ds) =
     (if (if ic then to_lower d = to_lower c else d = c) then lit_match ic cs ds else None)"

text \<open>
  \<open>rx_match ic p s\<close>: what is left of \<open>s\<close> after each way of matching \<open>p\<close> at its start,
  in the order a backtracking matcher tries them (the left alternative first, the longest
  repetition first). The match \<open>re\<close> reports is the first one.
\<close>

fun rx_match :: "bool \<Rightarrow> rx \<Rightarrow> string \<Rightarrow> string list" where
  "rx_match ic (Lit l) s = (case lit_match ic l s of None \<Rightarrow> [] | Some r \<Rightarrow> [r])"
| "rx_match ic (Rep c m n) s =
     (let avail = length (takeWhile (in_cls c) s);
          k = (case n of None \<Rightarrow> avail | Some n' \<Rightarrow> min n' avail)
      in map (\<lambda>j. drop j s) (rev [m..<Suc k]))"
| "rx_match ic (Alt a b) s = rx_match ic a s @ rx_match ic b s"
| "rx_match ic (Cat a b) s = concat (map (rx_match ic b) (rx_match ic a s))"

text \<open>
  \<open>re.sub(p, repl, s)\<close> with a literal replacement: scan from the left, replace the first
  match at the leftmost position that has one, go on after it. \<open>adv\<close> is the matcher's
  \<open>must_advance\<close>: right after an empty match, an empty match at the same position is not
  taken again.
\<close>

function re_sub :: "bool \<Rightarrow> rx \<Rightarrow> string \<Rightarrow> bool \<Rightarrow> string \<Rightarrow> string" where
  "re_sub ic p repl adv s =
     (case filter (\<lambda>r. \<not> adv \<or> length r < length s) (rx_match ic p s) of
        r # _ \<Rightarrow>
          if length r < length s then repl @ re_sub ic p repl False r
          else repl @ re_sub ic p repl True s
      | [] \<Rightarrow> (case s of [] \<Rightarrow> [] | c # cs \<Rightarrow> c # re_sub ic p repl False cs))"
  by pat_completeness auto
termination
proof (relation "measure (\<lambda>(ic, p, repl, adv, s). 2 * length s + (if adv then 0 else 1))")
  show "wf (measure (\<lambda>(ic, p, repl, adv, s). 2 * length s + (if adv then 0 else 1)))"
    by simp
next
  fix ic :: bool and p :: rx and repl s r :: string and adv :: bool and rs :: "string list"
  assume "filter (\<lambda>r. \<not> adv \<or> length r < length s) (rx_match ic p s) = r # rs"
    and "length r < length s"
  then show "((ic, p, repl, False, r), (ic, p, repl, adv, s))
      \<in> measure (\<lambda>(ic, p, repl, adv, s). 2 * length s + (if adv then 0 else 1))"
    by simp
next
  fix ic :: bool and p :: rx and repl s r :: string and adv :: bool and rs :: "string list"
  assume f: "filter (\<lambda>r. \<not> adv \<or> length r < length s) (rx_match ic p s) = r # rs"
    and n: "\<not> length r < length s"
  have "r \<in> set (filter (\<lambda>r. \<not> adv \<or> length r < length s) (rx_match ic p s))"
    unfolding f by simp
  with n have "\<not> adv" by simp
  then show "((ic, p, repl, True, s), (ic, p, repl, adv, s))
      \<in> measure (\<lambda>(ic, p, repl, adv, s). 2 * length s + (if adv then 0 else 1))"
    by simp
next
  fix ic :: bool and p :: rx and repl s cs :: string and adv :: bool and c :: char
  assume "s = c # cs"
  then show "((ic, p, repl, False, cs), (ic, p, repl, adv, s))
      \<in> measure (\<lambda>(ic, p, repl, adv, s). 2 * length s + (if adv then 0 else 1))"
    by simp
qed

declare re_sub.simps [simp del]

fun tails :: "string \<Rightarrow> string list" where
  "tails [] = [[]]"
| "tails (c # cs) = (c # cs) # tails cs"

definition has_match :: "bool \<Rightarrow> rx \<Rightarrow> string \<Rightarrow> bool" where
  \<comment> \<open>\<open>re.search(p, s) is not None\<close>\<close>
  "has_match ic p s = list_ex (\<lambda>u. rx_match ic p u \<noteq> []) (tails s)"

fun single_spaced :: "string \<Rightarrow> bool" where
  \<comment> \<open>every white-space character is one space, and no two of them are adjacent\<close>
  "single_spaced [] = True"
| "single_spaced (c # cs) =
     ((if is_space c then c = CHR '' '' \<and> (case cs of [] \<Rightarrow> True | d # _ \<Rightarrow> \<not> is_space d)
       else True) \<and> single_spaced cs)"

definition strip :: "string \<Rightarrow> string" where
  \<comment> \<open>\<open>s.strip()\<close>\<close>
  "strip s = rev (dropWhile is_space (rev (dropWhile is_space s)))"

section \<open>The summary cleaners\<close>

text \<open>
  \<open>html.unescape\<close> returns its argument when it holds no \<open>&\<close>, and otherwise replaces the
  character references with the standard library's HTML5 tables; that replacement is the
  parameter \<open>charref_sub\<close> of the functions below.
\<close>

definition html_unescape :: "(string \<Rightarrow> string) \<Rightarrow> string \<Rightarrow> string" where
  "html_unescape charref_sub s = (if CHR ''&'' \<notin> set s then s else charref_sub s)"

definition patterns :: "rx list" where
  \<comment> \<open>the list \<open>patterns\<close> of \<open>clean_summary\<close> (export_jsonl.py)\<close>
  "patterns =
    [Cat (Lit ''we use cookies to ensure'') (Rep AnyChar 0 (Some 200)),
     Cat (Lit ''by continued use, you '')
       (Cat (Alt (Lit ''agree'') (Lit ''accept'')) (Rep AnyChar 0 (Some 200))),
     Cat (Lit ''click '') (Alt (Lit ''find out more'') (Lit ''here for more'')),
     Lit ''i agree'',
     Lit ''find out more'',
     Lit ''advertisement'',
     Cat (Lit ''filtered by:'') (Cat (Rep Space 0 None) (Rep Word 1 None)),
     Lit ''read more'',
     Lit ''continue reading'',
     Lit ''subscribe'']"

definition snapshot_patterns :: "rx list" where
  \<comment> \<open>the list \<open>patterns\<close> of \<open>clean_summary_for_snapshot\<close> (rss_fetcher.py)\<close>
  "snapshot_patterns =
    [Cat (Lit ''we use cookies to ensure'') (Rep AnyChar 0 (Some 200)),
     Cat (Lit ''by continued use, you '')
       (Cat (Alt (Lit ''agree'') (Lit ''accept'')) (Rep AnyChar 0 (Some 200))),
     Cat (Lit ''click '') (Alt (Lit ''find out more'') (Lit ''here for more'')),
     Lit ''i agree'',
     Lit ''find out more'',
     Lit ''advertisement'',
     Cat (Lit ''filtered by:'') (Cat (Rep Space 0 None) (Rep Word 1 None)),
     Lit ''read more'',
     Lit ''continue reading'',
     Lit ''subscribe'']"

definition tag_rx :: rx where
  \<comment> \<open>\<open><[^>]+>\<close>\<close>
  "tag_rx = Cat (Lit ''<'') (Cat (Rep NotGt 1 None) (Lit ''>''))"

definition ws_rx :: rx where
  \<comment> \<open>\<open>\s+\<close>\<close>
  "ws_rx = Rep Space 1 None"

definition clean_summary :: "(string \<Rightarrow> string) \<Rightarrow> string option \<Rightarrow> string option" where
  \<comment> \<open>export_jsonl.py; it opens with \<open>if not text: return text\<close>\<close>
  "clean_summary charref_sub txt =
     (if \<not> truthy txt then txt
      else case txt of
        None \<Rightarrow> None
      | Some t \<Rightarrow>
          let s = fold (\<lambda>p s. re_sub True p '' '' False s) patterns t;
              s = re_sub False tag_rx '' '' False s;
              s = html_unescape charref_sub s;
              s = strip (re_sub False ws_rx '' '' False s)
          in if s \<noteq> [] then Some s else None)"

definition clean_summary_for_snapshot :: "(string \<Rightarrow> string) \<Rightarrow> string option \<Rightarrow> string option" where
  \<comment> \<open>rss_fetcher.py, inside \<open>export_db_to_json\<close>; it opens with \<open>if not s: return None\<close>\<close>
  "clean_summary_for_snapshot charref_sub txt =
     (if \<not> truthy txt then None
      else case txt of
        None \<Rightarrow> None
      | Some t \<Rightarrow>
          let s = fold (\<lambda>p s. re_sub True p '' '' False s) snapshot_patterns t;
              s = re_sub False tag_rx '' '' False s;
              s = html_unescape charref_sub s;
              s = strip (re_sub False ws_rx '' '' False s)
          in if s \<noteq> [] then Some s else None)"

definition scrub :: "(string \<Rightarrow> string) \<Rightarrow> rx list \<Rightarrow> string \<Rightarrow> string option" where
  \<comment> \<open>the four steps of a cleaner for a list of patterns, to state lemmas about them\<close>
  "scrub charref_sub ps t =
     (let s = fold (\<lambda>p s. re_sub True p '' '' False s) ps t;
          s = re_sub False tag_rx '' '' False s;
          s = html_unescape charref_sub s;
          s = strip (re_sub False ws_rx '' '' False s)
      in if s \<noteq> [] then Some s else None)"

definition residue_free :: "string \<Rightarrow> bool" where
  \<comment> \<open>nothing is left for the cleaner to remove: no phrase, no tag, no character reference\<close>
  "residue_free t \<longleftrightarrow>
     list_all (\<lambda>p. \<not> has_match True p t) patterns \<and> \<not> has_match False tag_rx t \<and> CHR ''&'' \<notin> set t"

section \<open>The exporter (\<open>export\<close>)\<close>

text \<open>
  The query \<open>export\<close> builds and runs: the WHERE clause when \<open>since\<close> is truthy, ORDER BY
  \<open>fetched_at\<close> ASC, and LIMIT when \<open>limit\<close> is truthy. Rows with equal \<open>fetched_at\<close> are
  kept in rowid order (\<open>sort_key\<close> is stable). SQLite reads a negative LIMIT as no limit,
  and \<open>sqlite3\<close> refuses to bind an integer outside 64 bits.
\<close>

definition select_items :: "row list \<Rightarrow> string option \<Rightarrow> int option \<Rightarrow> sql_error + row list" where
  "select_items tbl since limit =
     (let rows = (if truthy since
                  then case since of None \<Rightarrow> tbl | Some th \<Rightarrow> filter (\<lambda>r. th \<le> fetched_at r) tbl
                  else tbl);
          rows = sort_key fetched_at rows
      in case limit of
           None \<Rightarrow> Inr rows
         | Some k \<Rightarrow>
             if k = 0 then Inr rows
             else if k < - (2 ^ 63) \<or> 2 ^ 63 \<le> k then Inl OverflowError
             else if k < 0 then Inr rows
             else Inr (take (nat k) rows))"

definition export :: "(string \<Rightarrow> string) \<Rightarrow> row list \<Rightarrow> string option \<Rightarrow> int option
    \<Rightarrow> sql_error + (row list \<times> nat)" where
  \<comment> \<open>the objects written, one per line, and the count \<open>written\<close> that is returned\<close>
  "export charref_sub tbl since limit =
     (case select_items tbl since limit of
        Inl e \<Rightarrow> Inl e
      | Inr rows \<Rightarrow>
          Inr (map (\<lambda>r. r\<lparr>summary := clean_summary charref_sub (summary r)\<rparr>) rows, length rows))"

definition selected :: "string option \<Rightarrow> row \<Rightarrow> bool" where
  \<comment> \<open>the row passes the threshold: \<open>fetched_at >= since\<close>, or no threshold is given\<close>
  "selected since r = (case since of None \<Rightarrow> True | Some th \<Rightarrow> th \<le> fetched_at r)"

section \<open>The feed parser (\<open>parse_rss\<close>)\<close>

text \<open>
  An element of the tree \<open>ET.fromstring\<close> returns: its tag (\<open>{namespace}local\<close> when the
  element is in a namespace), its attributes, its text and its children in document order.
\<close>

datatype element =
  Element (etag: string) (attrib: "(string \<times> string) list") (etext: "string option")
    (children: "element list")

datatype py_error = IndexError

definition localname :: "string \<Rightarrow> py_error + string" where
  \<comment> \<open>\<open>tag.split("}", 1)[1]\<close> raises IndexError when the tag holds no \<open>}\<close>\<close>
  "localname tg =
     (if take 1 tg = ''{''
      then (if CHR ''}'' \<in> set tg then Inr (tl (dropWhile (\<lambda>c. c \<noteq> CHR ''}'') tg))
            else Inl IndexError)
      else Inr tg)"

definition stripped_text :: "string option \<Rightarrow> string option" where
  \<comment> \<open>\<open>child.text.strip() if child.text and child.text.strip() else None\<close>\<close>
  "stripped_text t = (if truthy t \<and> truthy (map_option strip t) then map_option strip t else None)"

definition child_step :: "pydict \<Rightarrow> element \<Rightarrow> py_error + pydict" where
  "child_step data child =
     (case localname (etag child) of
        Inl e \<Rightarrow> Inl e
      | Inr name \<Rightarrow>
          let txt = stripped_text (etext child) in
          Inr (if name = ''guid'' then data(''guid'' \<mapsto> txt)
               else if name = ''link''
                 then setdefault data ''link'' (py_or (map_of (attrib child) ''href'') txt)
               else if name \<in> set [''title'', ''description'', ''summary'', ''content'']
                 then (if name = ''title'' then data(''title'' \<mapsto> txt)
                       else setdefault data ''summary'' txt)
               else if name \<in> set [''pubDate'', ''published'', ''updated'']
                 then setdefault data ''published'' txt
               else data))"

fun collect :: "pydict \<Rightarrow> element list \<Rightarrow> py_error + pydict" where
  "collect data [] = Inr data"
| "collect data (child # rest) =
     (case child_step data child of Inl e \<Rightarrow> Inl e | Inr data' \<Rightarrow> collect data' rest)"

definition post_process :: "pydict \<Rightarrow> pydict" where
  "post_process data =
     (let data = (if \<not> truthy (pyget data ''guid'') then data(''guid'' \<mapsto> pyget data ''link'')
                  else data)
      in setdefault data ''title'' (py_or (pyget data ''summary'') (Some ''(no title)'')))"

definition parse_entry :: "element \<Rightarrow> py_error + pydict" where
  "parse_entry item =
     (case collect Map.empty (children item) of
        Inl e \<Rightarrow> Inl e
      | Inr data \<Rightarrow> Inr (post_process data))"

fun descendants :: "element \<Rightarrow> element list" where
  \<comment> \<open>\<open>root.findall('.//')\<close>: every element below the root, in document order\<close>
  "descendants (Element tg at tx cs) = concat (map (\<lambda>c. c # descendants c) cs)"

fun parse_loop :: "element list \<Rightarrow> pydict list \<Rightarrow> py_error + pydict list" where
  "parse_loop [] items = Inr items"
| "parse_loop (elem # rest) items =
     (case localname (etag elem) of
        Inl e \<Rightarrow> Inl e
      | Inr name \<Rightarrow>
          if name \<in> set [''item'', ''entry'']
          then (case parse_entry elem of
                  Inl e \<Rightarrow> Inl e
                | Inr data \<Rightarrow> parse_loop rest (items @ [data]))
          else parse_loop rest items)"

definition parse_rss :: "element \<Rightarrow> py_error + pydict list" where
  "parse_rss root = parse_loop (descendants root) []"

definition is_named :: "string list \<Rightarrow> element \<Rightarrow> bool" where
  "is_named names c = (case localname (etag c) of Inl e \<Rightarrow> False | Inr n \<Rightarrow> n \<in> set names)"

section \<open>Sample values\<close>

definition sample_clock :: "nat \<Rightarrow> datetime" where
  \<comment> \<open>a clock whose \<open>n\<close>-th reading is \<open>n\<close> microseconds after 2025-10-25 00:00:00\<close>
  "sample_clock n =
     \<lparr>year = 2025, month = 10, day = 25, hour = 0, minute = 0, second = 0, microsecond = n\<rparr>"

definition empty_store :: store where
  "empty_store = \<lparr>items_table = [], clock_reads = 0\<rparr>"

definition item_A :: pydict where
  "item_A = [''guid'' \<mapsto> Some ''A'', ''title'' \<mapsto> Some ''first'']"

definition item_B :: pydict where
  "item_B = [''guid'' \<mapsto> Some ''B'', ''title'' \<mapsto> Some ''second'']"

definition row_at :: "string \<Rightarrow> string \<Rightarrow> row" where
  "row_at g ts =
     \<lparr>guid = Some g, title = None, link = None, published = None, summary = None,
      fetched_at = ts\<rparr>"

definition sample_table :: "row list" where
  "sample_table =
     [row_at ''d'' ''2025-10-25T00:00:00.400000Z'', row_at ''b'' ''2025-10-25T00:00:00.200000Z'',
      row_at ''a'' ''2025-10-25T00:00:00.100000Z'', row_at ''c'' ''2025-10-25T00:00:00.300000Z'']"

definition fields_of :: "string \<Rightarrow> py_error + pydict list \<Rightarrow> py_error + string option list" where
  \<comment> \<open>the value of one field in each record of a parse result\<close>
  "fields_of k r = map_sum id (map (\<lambda>d. pyget d k)) r"

definition leaf :: "string \<Rightarrow> (string \<times> string) list \<Rightarrow> string option \<Rightarrow> element" where
  "leaf n at tx = Element n at tx []"

definition rss_feed :: "element list \<Rightarrow> element" where
  \<comment> \<open>\<open><rss version="2.0"><channel><item>...</item></channel></rss>\<close>\<close>
  "rss_feed cs =
     Element ''rss'' [(''version'', ''2.0'')] None
       [Element ''channel'' [] None [Element ''item'' [] None cs]]"

definition atom_entry :: "element list \<Rightarrow> element" where
  "atom_entry cs = Element ''{http://www.w3.org/2005/Atom}entry'' [] None cs"

definition atom_feed :: "element list \<Rightarrow> element" where
  \<comment> \<open>\<open><feed xmlns="http://www.w3.org/2005/Atom"><entry>...</entry></feed>\<close>\<close>
  "atom_feed cs = Element ''{http://www.w3.org/2005/Atom}feed'' [] None [atom_entry cs]"

definition sample_entry :: element where
  \<comment> \<open>an Atom entry with two titles, two summary candidates and two dates\<close>
  "sample_entry =
     atom_entry
       [leaf ''{http://www.w3.org/2005/Atom}title'' [] (Some ''A''),
        leaf ''{http://www.w3.org/2005/Atom}summary'' [] (Some ''first''),
        leaf ''{http://www.w3.org/2005/Atom}title'' [] (Some ''B''),
        leaf ''{http://www.w3.org/2005/Atom}content'' [] (Some ''second''),
        leaf ''{http://www.w3.org/2005/Atom}updated'' [] (Some ''2025-10-25T00:00:00Z''),
        leaf ''{http://www.w3.org/2005/Atom}published'' [] (Some ''2025-10-24T00:00:00Z''),
        leaf ''{http://www.w3.org/2005/Atom}link'' [(''href'', ''http://example.org/x'')] None]"

section \<open>Properties of the store\<close>

lemma guid_unique_Nil: "guid_unique []"
  by (simp add: guid_unique_def)

lemma insert_row_unique:
  "guid_unique tbl \<Longrightarrow> insert_row tbl r = Inr tbl' \<Longrightarrow> guid_unique tbl'"
  by (auto simp: insert_row_def guid_unique_def split: option.splits if_splits)

lemma save_loop_unique:
  "guid_unique (items_table db) \<Longrightarrow> guid_unique (items_table (fst (save_loop utcnow items db n)))"
proof (induction items arbitrary: db n)
  case Nil
  then show ?case by simp
next
  case (Cons it items)
  show ?case
  proof (cases "insert_row (items_table db) (new_row it (utcnow (clock_reads db)))")
    case (Inl e)
    with Cons show ?thesis by (simp add: Let_def)
  next
    case (Inr tbl)
    from Cons.prems Inr have "guid_unique tbl" by (rule insert_row_unique)
    with Cons.IH [of "db\<lparr>clock_reads := Suc (clock_reads db), items_table := tbl\<rparr>"] Inr
    show ?thesis by (simp add: Let_def)
  qed
qed

lemma rows_with_guid_unique:
  "guid_unique tbl \<Longrightarrow> length (rows_with_guid g tbl) \<le> 1"
proof (induction tbl)
  case Nil
  then show ?case by (simp add: rows_with_guid_def)
next
  case (Cons r tbl)
  then have u: "guid_unique tbl"
    by (auto simp: guid_unique_def split: if_splits)
  show ?case
  proof (cases "guid r = Some g")
    case True
    with Cons.prems have "Some g \<notin> set (map guid tbl)"
      by (auto simp: guid_unique_def)
    then have "rows_with_guid g tbl = []"
      by (force simp: rows_with_guid_def filter_empty_conv image_iff)
    with True show ?thesis by (simp add: rows_with_guid_def)
  next
    case False
    with Cons.IH [OF u] show ?thesis by (simp add: rows_with_guid_def)
  qed
qed

lemma save_one:
  assumes "pyget it ''guid'' = Some g"
  shows "save_items utcnow db [it] =
    (if Some g \<in> set (map guid (items_table db))
     then (db\<lparr>clock_reads := Suc (clock_reads db)\<rparr>, 0)
     else (db\<lparr>clock_reads := Suc (clock_reads db),
               items_table := items_table db @ [new_row it (utcnow (clock_reads db))]\<rparr>, 1))"
  using assms by (simp add: save_items_def insert_row_def new_row_def Let_def)

lemma insert_row_Inr: "insert_row tbl r = Inr tbl' \<Longrightarrow> tbl' = tbl @ [r]"
  by (auto simp: insert_row_def split: option.splits if_splits)

lemma insert_row_duplicate:
  "guid r = Some g \<Longrightarrow> Some g \<in> set (map guid tbl) \<Longrightarrow> insert_row tbl r = Inl IntegrityError"
  by (simp add: insert_row_def)

lemma insert_row_fresh:
  "guid r = Some g \<Longrightarrow> Some g \<notin> set (map guid tbl) \<Longrightarrow> insert_row tbl r = Inr (tbl @ [r])"
  by (simp add: insert_row_def)

lemma guid_new_row: "guid (new_row it now) = pyget it ''guid''"
  by (simp add: new_row_def)

lemma save_loop_step:
  "save_loop utcnow (it # items) db n =
     (case insert_row (items_table db) (new_row it (utcnow (clock_reads db))) of
        Inr tbl \<Rightarrow> save_loop utcnow items
                    (db\<lparr>clock_reads := Suc (clock_reads db), items_table := tbl\<rparr>) (n + 1)
      | Inl e \<Rightarrow> save_loop utcnow items (db\<lparr>clock_reads := Suc (clock_reads db)\<rparr>) n)"
  by (simp add: Let_def)

text \<open>A duplicate is skipped and the loop goes on with the rest of the batch.\<close>

lemma save_loop_skip:
  assumes "pyget it ''guid'' = Some g" and "Some g \<in> set (map guid (items_table db))"
  shows "save_loop utcnow (it # rest) db n
     = save_loop utcnow rest (db\<lparr>clock_reads := Suc (clock_reads db)\<rparr>) n"
  using assms by (simp only: save_loop_step) (simp add: insert_row_duplicate guid_new_row)

lemma save_loop_fresh:
  assumes "pyget it ''guid'' = Some g" and "Some g \<notin> set (map guid (items_table db))"
  shows "save_loop utcnow (it # rest) db n
     = save_loop utcnow rest
         (db\<lparr>clock_reads := Suc (clock_reads db),
             items_table := items_table db @ [new_row it (utcnow (clock_reads db))]\<rparr>) (n + 1)"
  using assms by (simp only: save_loop_step) (simp add: insert_row_fresh guid_new_row)

text \<open>The count returned is the number of rows the call has written.\<close>

lemma save_loop_count:
  "snd (save_loop utcnow xs db n) + length (items_table db)
     = n + length (items_table (fst (save_loop utcnow xs db n)))"
proof (induction xs arbitrary: db n)
  case Nil
  then show ?case by simp
next
  case (Cons it xs)
  show ?case
  proof (cases "insert_row (items_table db) (new_row it (utcnow (clock_reads db)))")
    case (Inl e)
    with Cons [of "db\<lparr>clock_reads := Suc (clock_reads db)\<rparr>" n] show ?thesis
      by (simp add: save_loop_step)
  next
    case (Inr tbl)
    then have "tbl = items_table db @ [new_row it (utcnow (clock_reads db))]"
      by (rule insert_row_Inr)
    with Inr Cons [of "db\<lparr>clock_reads := Suc (clock_reads db), items_table := tbl\<rparr>" "n + 1"]
    show ?thesis
      by (simp add: save_loop_step)
  qed
qed

lemma save_loop_keeps:
  "Some g \<in> set (map guid (items_table db)) \<Longrightarrow>
     Some g \<in> set (map guid (items_table (fst (save_loop utcnow xs db n))))"
proof (induction xs arbitrary: db n)
  case Nil
  then show ?case by simp
next
  case (Cons it xs)
  show ?case
  proof (cases "insert_row (items_table db) (new_row it (utcnow (clock_reads db)))")
    case (Inl e)
    with Cons.IH [of "db\<lparr>clock_reads := Suc (clock_reads db)\<rparr>" n] Cons.prems show ?thesis
      by (simp add: save_loop_step)
  next
    case (Inr tbl)
    then have "tbl = items_table db @ [new_row it (utcnow (clock_reads db))]"
      by (rule insert_row_Inr)
    with Inr Cons.prems
      Cons.IH [of "db\<lparr>clock_reads := Suc (clock_reads db), items_table := tbl\<rparr>" "n + 1"]
    show ?thesis
      by (simp add: save_loop_step)
  qed
qed

lemma save_loop_present:
  assumes "pyget it ''guid'' = Some g"
  shows "it \<in> set xs \<Longrightarrow>
     Some g \<in> set (map guid (items_table (fst (save_loop utcnow xs db n))))"
proof (induction xs arbitrary: db n)
  case Nil
  then show ?case by simp
next
  case (Cons x xs)
  show ?case
  proof (cases "it = x")
    case True
    show ?thesis
    proof (cases "Some g \<in> set (map guid (items_table db))")
      case True
      then show ?thesis by (rule save_loop_keeps)
    next
      case False
      have "Some g \<in> set (map guid (items_table
          (db\<lparr>clock_reads := Suc (clock_reads db),
              items_table := items_table db @ [new_row it (utcnow (clock_reads db))]\<rparr>)))"
        by (simp add: guid_new_row assms)
      from save_loop_keeps [OF this, of utcnow xs "n + 1"]
      have "Some g \<in> set (map guid (items_table (fst (save_loop utcnow (it # xs) db n))))"
        by (simp only: save_loop_fresh [OF assms False])
      with \<open>it = x\<close> show ?thesis by simp
    qed
  next
    case False
    with Cons.prems have m: "it \<in> set xs" by simp
    show ?thesis
      by (cases "insert_row (items_table db) (new_row x (utcnow (clock_reads db)))")
        (simp_all add: Let_def Cons.IH [OF m] del: set_map)
  qed
qed

lemma save_loop_append:
  "save_loop utcnow (xs @ ys) db n
     = save_loop utcnow ys (fst (save_loop utcnow xs db n)) (snd (save_loop utcnow xs db n))"
proof (induction xs arbitrary: db n)
  case Nil
  then show ?case by simp
next
  case (Cons x xs)
  show ?case
    by (cases "insert_row (items_table db) (new_row x (utcnow (clock_reads db)))")
      (simp_all add: Let_def Cons.IH)
qed

lemma one_row_with_guid:
  assumes "guid_unique tbl" and "Some g \<in> set (map guid tbl)"
  shows "length (rows_with_guid g tbl) = 1"
proof -
  from assms(1) have "length (rows_with_guid g tbl) \<le> 1"
    by (rule rows_with_guid_unique)
  moreover from assms(2) have "rows_with_guid g tbl \<noteq> []"
    by (auto simp: rows_with_guid_def filter_empty_conv)
  ultimately show ?thesis
    by (cases "rows_with_guid g tbl") auto
qed

text \<open>
  C1. For an item whose guid is not null and a table that satisfies the UNIQUE constraint,
  after \<open>save_items\<close> of any batch that holds the item: the table holds exactly one row
  with that guid, and it still does after any further batch; the count a call returns is
  the number of rows it has written; a second \<open>save_items\<close> of the item returns the count 0
  and leaves the table as it was; inside a batch the duplicate is skipped and the rest of
  the batch is processed as if it were not there, so a batch that ends with the item again
  stores and counts what the batch without it does. The first insert of a guid the table
  does not hold writes the item's row and counts 1.
\<close>

theorem save_items_idempotent:
  assumes "pyget it ''guid'' = Some g" and "guid_unique (items_table db)" and "it \<in> set xs"
  shows "length (rows_with_guid g (items_table (fst (save_items utcnow db xs)))) = 1
    \<and> snd (save_items utcnow db xs) + length (items_table db)
        = length (items_table (fst (save_items utcnow db xs)))
    \<and> save_items utcnow' (fst (save_items utcnow db xs)) [it]
        = ((fst (save_items utcnow db xs))
             \<lparr>clock_reads := Suc (clock_reads (fst (save_items utcnow db xs)))\<rparr>, 0)
    \<and> length (rows_with_guid g
         (items_table (fst (save_items utcnow' (fst (save_items utcnow db xs)) ys)))) = 1
    \<and> save_items utcnow' (fst (save_items utcnow db xs)) (it # rest)
        = save_items utcnow'
            ((fst (save_items utcnow db xs))
               \<lparr>clock_reads := Suc (clock_reads (fst (save_items utcnow db xs)))\<rparr>) rest
    \<and> items_table (fst (save_items utcnow db (xs @ [it])))
        = items_table (fst (save_items utcnow db xs))
    \<and> snd (save_items utcnow db (xs @ [it])) = snd (save_items utcnow db xs)
    \<and> (if Some g \<in> set (map guid (items_table db))
        then save_items utcnow db [it] = (db\<lparr>clock_reads := Suc (clock_reads db)\<rparr>, 0)
        else save_items utcnow db [it]
          = (db\<lparr>clock_reads := Suc (clock_reads db),
                 items_table := items_table db @ [new_row it (utcnow (clock_reads db))]\<rparr>, 1))"
proof -
  let ?db1 = "fst (save_items utcnow db xs)"
  have present: "Some g \<in> set (map guid (items_table ?db1))"
    unfolding save_items_def using assms(1,3) by (rule save_loop_present)
  have unique: "guid_unique (items_table ?db1)"
    unfolding save_items_def using assms(2) by (rule save_loop_unique)
  have 1: "length (rows_with_guid g (items_table ?db1)) = 1"
    using unique present by (rule one_row_with_guid)
  have 2: "snd (save_items utcnow db xs) + length (items_table db) = length (items_table ?db1)"
    using save_loop_count [of utcnow xs db 0] by (simp add: save_items_def)
  have 3: "save_items utcnow' ?db1 [it] = (?db1\<lparr>clock_reads := Suc (clock_reads ?db1)\<rparr>, 0)"
    using present by (simp add: save_one [OF assms(1)])
  have 4: "length (rows_with_guid g (items_table (fst (save_items utcnow' ?db1 ys)))) = 1"
    unfolding save_items_def [of utcnow' ?db1 ys]
    by (intro one_row_with_guid save_loop_unique save_loop_keeps unique present)
  have 5: "save_items utcnow' ?db1 (it # rest)
      = save_items utcnow' (?db1\<lparr>clock_reads := Suc (clock_reads ?db1)\<rparr>) rest"
    unfolding save_items_def [of utcnow' _ "it # rest"] save_items_def [of utcnow' _ rest]
    using assms(1) present by (rule save_loop_skip)
  have app: "save_items utcnow db (xs @ [it])
      = save_loop utcnow [it] ?db1 (snd (save_items utcnow db xs))"
    by (simp only: save_items_def save_loop_append)
  have "save_loop utcnow [it] ?db1 (snd (save_items utcnow db xs))
      = (?db1\<lparr>clock_reads := Suc (clock_reads ?db1)\<rparr>, snd (save_items utcnow db xs))"
    by (subst save_loop_skip [OF assms(1) present]) simp
  with app have 6: "items_table (fst (save_items utcnow db (xs @ [it]))) = items_table ?db1"
    and 7: "snd (save_items utcnow db (xs @ [it])) = snd (save_items utcnow db xs)"
    by simp_all
  have 8: "if Some g \<in> set (map guid (items_table db))
        then save_items utcnow db [it] = (db\<lparr>clock_reads := Suc (clock_reads db)\<rparr>, 0)
        else save_items utcnow db [it]
          = (db\<lparr>clock_reads := Suc (clock_reads db),
                 items_table := items_table db @ [new_row it (utcnow (clock_reads db))]\<rparr>, 1)"
    by (simp add: save_one [OF assms(1)])
  from 1 2 3 4 5 6 7 8 show ?thesis
    by (intro conjI)
qed


theorem save_items_idempotent_witness:
  "pyget item_B ''guid'' = Some ''B'' \<and> guid_unique (items_table empty_store)
   \<and> item_B \<in> set [item_A, item_A, item_B]
   \<and> length (rows_with_guid ''B''
        (items_table (fst (save_items sample_clock empty_store [item_A, item_A, item_B])))) = 1
   \<and> snd (save_items sample_clock empty_store [item_A, item_A, item_B]) = 2
   \<and> snd (save_items sample_clock
        (fst (save_items sample_clock empty_store [item_A, item_A, item_B])) [item_B]) = 0"
proof -
  have g: "pyget item_B ''guid'' = Some ''B''"
    by (simp add: pyget_def item_B_def)
  have u: "guid_unique (items_table empty_store)"
    by (simp add: empty_store_def guid_unique_def)
  have m: "item_B \<in> set [item_A, item_A, item_B]"
    by simp
  have n: "length (items_table (fst (save_items sample_clock empty_store [item_A, item_A, item_B])))
      = 2"
    by (simp add: save_items_def empty_store_def insert_row_def Let_def new_row_def pyget_def
        item_A_def item_B_def)
  note t = save_items_idempotent [OF g u m, of sample_clock sample_clock "[]" "[]"]
  from t have a: "length (rows_with_guid ''B''
      (items_table (fst (save_items sample_clock empty_store [item_A, item_A, item_B])))) = 1"
    by (rule conjunct1)
  from t have "snd (save_items sample_clock empty_store [item_A, item_A, item_B])
      + length (items_table empty_store)
      = length (items_table (fst (save_items sample_clock empty_store [item_A, item_A, item_B])))"
    by blast
  with n have b: "snd (save_items sample_clock empty_store [item_A, item_A, item_B]) = 2"
    by (simp add: empty_store_def)
  from t have "save_items sample_clock
      (fst (save_items sample_clock empty_store [item_A, item_A, item_B])) [item_B]
      = ((fst (save_items sample_clock empty_store [item_A, item_A, item_B]))
           \<lparr>clock_reads :=
              Suc (clock_reads (fst (save_items sample_clock empty_store [item_A, item_A, item_B])))\<rparr>,
         0)"
    by blast
  then have c: "snd (save_items sample_clock
      (fst (save_items sample_clock empty_store [item_A, item_A, item_B])) [item_B]) = 0"
    by simp
  from g u m a b c show ?thesis
    by (intro conjI)
qed

section \<open>Timestamps assigned by the store\<close>

lemma isoformat_sample_0: "isoformat (sample_clock 0) = ''2025-10-25T00:00:00''"
  by code_simp

lemma isoformat_sample_1: "isoformat (sample_clock 1) = ''2025-10-25T00:00:00.000001''"
  by code_simp

lemma length_zpad: "length (zpad w n) = w"
  by (induction w arbitrary: n) simp_all

lemma length_fetched_at:
  "length (fetched_at (new_row it now)) = (if microsecond now = 0 then 20 else 27)"
  by (simp add: new_row_def isoformat_def length_zpad)

lemma save_items_A_B:
  "items_table (fst (save_items sample_clock empty_store [item_A, item_B])) =
     [new_row item_A (sample_clock 0), new_row item_B (sample_clock 1)]"
  by (simp add: save_items_def empty_store_def insert_row_def Let_def new_row_def pyget_def
      item_A_def item_B_def)

text \<open>
  C9. The store's timestamp is \<open>isoformat() + "Z"\<close>, and \<open>isoformat\<close> leaves the fraction
  out when the microsecond field is zero: the strings are 20 or 27 characters wide. Two
  items saved in order, at 00:00:00.000000 and one microsecond later, get
  \<open>2025-10-25T00:00:00Z\<close> and \<open>2025-10-25T00:00:00.000001Z\<close>; the later string is the
  smaller one, and an export since \<open>2025-10-25T00:00:00Z\<close> selects the first item only.
\<close>

theorem fetched_at_not_fixed_width:
  "valid_datetime (sample_clock 0) \<and> valid_datetime (sample_clock 1)
   \<and> datetime_less (sample_clock 0) (sample_clock 1)
   \<and> map fetched_at (items_table (fst (save_items sample_clock empty_store [item_A, item_B])))
       = [''2025-10-25T00:00:00Z'', ''2025-10-25T00:00:00.000001Z'']
   \<and> ''2025-10-25T00:00:00.000001Z'' < ''2025-10-25T00:00:00Z''
   \<and> length ''2025-10-25T00:00:00Z'' \<noteq> length ''2025-10-25T00:00:00.000001Z''
   \<and> map_sum id (map guid)
        (select_items (items_table (fst (save_items sample_clock empty_store [item_A, item_B])))
           (Some ''2025-10-25T00:00:00Z'') None) = Inr [Some ''A'']"
proof -
  have rows: "items_table (fst (save_items sample_clock empty_store [item_A, item_B])) =
      [\<lparr>guid = Some ''A'', title = Some ''first'', link = None, published = None,
        summary = None, fetched_at = ''2025-10-25T00:00:00Z''\<rparr>,
       \<lparr>guid = Some ''B'', title = Some ''second'', link = None, published = None,
        summary = None, fetched_at = ''2025-10-25T00:00:00.000001Z''\<rparr>]"
    unfolding save_items_A_B new_row_def isoformat_sample_0 isoformat_sample_1
    by (simp add: pyget_def item_A_def item_B_def)
  have "valid_datetime (sample_clock 0)" and "valid_datetime (sample_clock 1)"
    by (simp_all add: valid_datetime_def sample_clock_def)
  moreover have "datetime_less (sample_clock 0) (sample_clock 1)"
    by (simp add: datetime_less_def datetime_key_def sample_clock_def)
  moreover have "''2025-10-25T00:00:00.000001Z'' < ''2025-10-25T00:00:00Z''"
    by code_simp
  moreover have "\<not> ''2025-10-25T00:00:00Z'' \<le> ''2025-10-25T00:00:00.000001Z''"
    by code_simp
  ultimately show ?thesis
    unfolding rows
    by (simp add: select_items_def truthy_def del: Cons_less_Cons Cons_le_Cons)
qed

section \<open>Selection and order of the export\<close>

lemma select_items_unlimited:
  "select_items tbl since None = Inr (sort_key fetched_at (filter (selected since) tbl))"
proof (cases since)
  case None
  then show ?thesis by (simp add: select_items_def truthy_def selected_def)
next
  case (Some th)
  show ?thesis
  proof (cases "th = []")
    case True
    with Some show ?thesis by (simp add: select_items_def truthy_def selected_def)
  next
    case False
    have "selected (Some th) = (\<lambda>r. th \<le> fetched_at r)"
      by (simp add: selected_def fun_eq_iff)
    with Some False show ?thesis by (simp add: select_items_def truthy_def)
  qed
qed

lemma select_items_limited:
  assumes "0 < k" "k < 2 ^ 63"
  shows "select_items tbl since (Some k) = Inr (take (nat k) (sort_key fetched_at (filter (selected since) tbl)))"
proof -
  from select_items_unlimited [of tbl since]
  have "(let rows = (if truthy since then case since of None \<Rightarrow> tbl | Some th \<Rightarrow> filter (\<lambda>r. th \<le> fetched_at r) tbl else tbl) in sort_key fetched_at rows)
     = sort_key fetched_at (filter (selected since) tbl)"
    by (simp add: select_items_def Let_def)
  with assms show ?thesis
    by (simp add: select_items_def Let_def)
qed

lemma sorted_take_drop_le:
  assumes "sorted (map f xs)" "x \<in> set (take n xs)" "y \<in> set (drop n xs)"
  shows "f x \<le> f y"
proof -
  have "sorted (map f (take n xs) @ map f (drop n xs))"
    using assms(1) by (simp flip: map_append)
  with assms(2,3) show ?thesis
    by (auto simp: sorted_append)
qed

lemma select_items_zero:
  "select_items tbl since (Some 0) = select_items tbl since None"
  by (simp add: select_items_def)

lemma export_zero: "export f tbl since (Some 0) = export f tbl since None"
  by (simp add: export_def select_items_zero)

text \<open>
  C2 (amended). The rows \<open>export\<close> writes without a limit are in non-decreasing order of
  \<open>fetched_at\<close> and are exactly the stored rows with \<open>fetched_at >= since\<close> (all rows when
  no threshold is given), each with its summary cleaned, and the count returned is their
  number; when no stored row reaches the threshold, nothing is written and the count is 0.
  The limit 0 is no limit: the same rows are written. For a limit \<open>k\<close> with
  \<open>0 < k < 2^63\<close> the rows are the first \<open>k\<close> of that ordered selection: \<open>min k n\<close> rows,
  each no later than every row left out.
\<close>

theorem export_select_semantics:
  "\<exists>all_rows.
      select_items tbl since None = Inr all_rows
    \<and> sorted (map fetched_at all_rows)
    \<and> mset all_rows = filter_mset (selected since) (mset tbl)
    \<and> export f tbl since None =
        Inr (map (\<lambda>r. r\<lparr>summary := clean_summary f (summary r)\<rparr>) all_rows, length all_rows)
    \<and> ((\<forall>r \<in> set tbl. \<not> selected since r) \<longrightarrow> export f tbl since None = Inr ([], 0))
    \<and> select_items tbl since (Some 0) = Inr all_rows
    \<and> export f tbl since (Some 0) =
        Inr (map (\<lambda>r. r\<lparr>summary := clean_summary f (summary r)\<rparr>) all_rows, length all_rows)
    \<and> (0 < k \<and> k < 2 ^ 63 \<longrightarrow>
          select_items tbl since (Some k) = Inr (take (nat k) all_rows)
        \<and> length (take (nat k) all_rows) = min (nat k) (length all_rows)
        \<and> (\<forall>r \<in> set (take (nat k) all_rows). \<forall>r' \<in> set (drop (nat k) all_rows).
              fetched_at r \<le> fetched_at r')
        \<and> export f tbl since (Some k) =
            Inr (map (\<lambda>r. r\<lparr>summary := clean_summary f (summary r)\<rparr>) (take (nat k) all_rows),
                 min (nat k) (length all_rows)))"
proof -
  let ?all = "sort_key fetched_at (filter (selected since) tbl)"
  let ?snap = "\<lambda>r. r\<lparr>summary := clean_summary f (summary r)\<rparr>"
  have 1: "select_items tbl since None = Inr ?all"
    by (rule select_items_unlimited)
  have 2: "sorted (map fetched_at ?all)"
    by (rule sorted_sort_key)
  have 3: "mset ?all = filter_mset (selected since) (mset tbl)"
    by simp
  have 4: "export f tbl since None = Inr (map ?snap ?all, length ?all)"
    by (simp add: export_def 1)
  have 5: "(\<forall>r \<in> set tbl. \<not> selected since r) \<longrightarrow> export f tbl since None = Inr ([], 0)"
  proof
    assume "\<forall>r \<in> set tbl. \<not> selected since r"
    then have "filter (selected since) tbl = []"
      by (simp add: filter_empty_conv)
    then show "export f tbl since None = Inr ([], 0)"
      by (simp add: export_def 1)
  qed
  have 6: "select_items tbl since (Some 0) = Inr ?all"
    by (simp only: select_items_zero 1)
  have 7: "export f tbl since (Some 0) = Inr (map ?snap ?all, length ?all)"
    by (simp only: export_zero 4)
  have 8: "0 < k \<and> k < 2 ^ 63 \<longrightarrow>
          select_items tbl since (Some k) = Inr (take (nat k) ?all)
        \<and> length (take (nat k) ?all) = min (nat k) (length ?all)
        \<and> (\<forall>r \<in> set (take (nat k) ?all). \<forall>r' \<in> set (drop (nat k) ?all).
              fetched_at r \<le> fetched_at r')
        \<and> export f tbl since (Some k) =
            Inr (map ?snap (take (nat k) ?all), min (nat k) (length ?all))"
  proof (intro impI, elim conjE)
    assume k: "0 < k" "k < 2 ^ 63"
    have a: "select_items tbl since (Some k) = Inr (take (nat k) ?all)"
      using k by (rule select_items_limited)
    have b: "length (take (nat k) ?all) = min (nat k) (length ?all)"
      by (simp add: min.commute)
    have c: "\<forall>r \<in> set (take (nat k) ?all). \<forall>r' \<in> set (drop (nat k) ?all).
        fetched_at r \<le> fetched_at r'"
      using 2 by (blast intro: sorted_take_drop_le)
    have d: "export f tbl since (Some k) =
        Inr (map ?snap (take (nat k) ?all), min (nat k) (length ?all))"
      by (simp add: export_def a min.commute)
    from a b c d show "select_items tbl since (Some k) = Inr (take (nat k) ?all)
        \<and> length (take (nat k) ?all) = min (nat k) (length ?all)
        \<and> (\<forall>r \<in> set (take (nat k) ?all). \<forall>r' \<in> set (drop (nat k) ?all).
              fetched_at r \<le> fetched_at r')
        \<and> export f tbl since (Some k) =
            Inr (map ?snap (take (nat k) ?all), min (nat k) (length ?all))"
      by (intro conjI)
  qed
  from 1 2 3 4 5 6 7 8 show ?thesis
    by (intro exI [of _ ?all] conjI)
qed

theorem export_select_semantics_witness:
  "(0::int) < 2 \<and> (2::int) < 2 ^ 63 \<and>
   map_sum id (map guid)
     (select_items sample_table (Some ''2025-10-25T00:00:00.200000Z'') (Some 2))
     = Inr [Some ''b'', Some ''c'']
   \<and> map_sum id snd (export id sample_table (Some ''2025-10-25T00:00:00.200000Z'') None) = Inr 3"
proof -
  have h: "(0::int) < 2 \<and> (2::int) < 2 ^ 63"
    by simp
  have ev: "select_items sample_table (Some ''2025-10-25T00:00:00.200000Z'') None =
      Inr [row_at ''b'' ''2025-10-25T00:00:00.200000Z'', row_at ''c'' ''2025-10-25T00:00:00.300000Z'',
           row_at ''d'' ''2025-10-25T00:00:00.400000Z'']"
    by code_simp
  from export_select_semantics [of sample_table "Some ''2025-10-25T00:00:00.200000Z''" id 2] h
  obtain all_rows where
    a: "select_items sample_table (Some ''2025-10-25T00:00:00.200000Z'') None = Inr all_rows" and
    b: "select_items sample_table (Some ''2025-10-25T00:00:00.200000Z'') (Some 2) =
          Inr (take (nat 2) all_rows)" and
    c: "export id sample_table (Some ''2025-10-25T00:00:00.200000Z'') None =
          Inr (map (\<lambda>r. r\<lparr>summary := clean_summary id (summary r)\<rparr>) all_rows, length all_rows)"
    by blast
  from a ev have "all_rows =
      [row_at ''b'' ''2025-10-25T00:00:00.200000Z'', row_at ''c'' ''2025-10-25T00:00:00.300000Z'',
       row_at ''d'' ''2025-10-25T00:00:00.400000Z'']"
    by simp
  with b c h show ?thesis
    by (simp add: row_at_def)
qed

text \<open>
  The claim as stated, at the limit 0: \<open>if limit:\<close> is false for 0, no LIMIT clause is
  added, and all four rows are written, not the 0 earliest.
\<close>

theorem export_limit_zero_counterexample:
  "map_sum id snd (export id sample_table None (Some 0)) = Inr 4"
  by (simp add: export_def select_items_def truthy_def sample_table_def)

section \<open>Field extraction of the parser\<close>

lemma find_snoc:
  "find P (xs @ [x]) = (case find P xs of Some y \<Rightarrow> Some y | None \<Rightarrow> if P x then Some x else None)"
  by (induction xs) auto

lemma localname_namespaced:
  assumes "CHR ''}'' \<notin> set ns"
  shows "localname (''{'' @ ns @ ''}'' @ n) = Inr n"
proof -
  have "dropWhile (\<lambda>c. c \<noteq> CHR ''}'') (ns @ CHR ''}'' # n) = CHR ''}'' # n"
    using assms by (induction ns) auto
  then show ?thesis
    by (simp add: localname_def)
qed

lemma child_step_Inr:
  assumes "localname (etag c) = Inr n"
  shows "child_step d0 c =
     Inr (if n = ''guid'' then d0(''guid'' \<mapsto> stripped_text (etext c))
          else if n = ''link''
            then setdefault d0 ''link''
                   (py_or (map_of (attrib c) ''href'') (stripped_text (etext c)))
          else if n \<in> set [''title'', ''description'', ''summary'', ''content'']
            then (if n = ''title'' then d0(''title'' \<mapsto> stripped_text (etext c))
                  else setdefault d0 ''summary'' (stripped_text (etext c)))
          else if n \<in> set [''pubDate'', ''published'', ''updated'']
            then setdefault d0 ''published'' (stripped_text (etext c))
          else d0)"
  using assms by (simp add: child_step_def Let_def)

lemma child_step_Inl:
  "localname (etag c) = Inl e \<Longrightarrow> child_step d0 c = Inl e"
  by (simp add: child_step_def)

lemma setdefault_apply:
  "setdefault d k v k' = (if k' = k \<and> d k = None then Some v else d k')"
  by (auto simp: setdefault_def split: option.splits)

lemma child_step_title:
  assumes "child_step d0 c = Inr d1"
  shows "d1 ''title'' =
    (if is_named [''title''] c then Some (stripped_text (etext c)) else d0 ''title'')"
proof (cases "localname (etag c)")
  case (Inl e)
  with assms show ?thesis by (simp add: child_step_Inl)
next
  case (Inr n)
  from assms have "d1 = projr (child_step d0 c)" by simp
  then show ?thesis
    unfolding child_step_Inr [OF Inr]
    by (simp add: is_named_def Inr setdefault_apply)
qed

lemma child_step_guid:
  assumes "child_step d0 c = Inr d1"
  shows "d1 ''guid'' =
    (if is_named [''guid''] c then Some (stripped_text (etext c)) else d0 ''guid'')"
proof (cases "localname (etag c)")
  case (Inl e)
  with assms show ?thesis by (simp add: child_step_Inl)
next
  case (Inr n)
  from assms have "d1 = projr (child_step d0 c)" by simp
  then show ?thesis
    unfolding child_step_Inr [OF Inr]
    by (simp add: is_named_def Inr setdefault_apply)
qed

lemma child_step_summary:
  assumes "child_step d0 c = Inr d1"
  shows "d1 ''summary'' =
    (if is_named [''description'', ''summary'', ''content''] c \<and> d0 ''summary'' = None then Some (stripped_text (etext c)) else d0 ''summary'')"
proof (cases "localname (etag c)")
  case (Inl e)
  with assms show ?thesis by (simp add: child_step_Inl)
next
  case (Inr n)
  from assms have "d1 = projr (child_step d0 c)" by simp
  then show ?thesis
    unfolding child_step_Inr [OF Inr]
    by (simp add: is_named_def Inr setdefault_apply)
qed

lemma child_step_published:
  assumes "child_step d0 c = Inr d1"
  shows "d1 ''published'' =
    (if is_named [''pubDate'', ''published'', ''updated''] c \<and> d0 ''published'' = None then Some (stripped_text (etext c)) else d0 ''published'')"
proof (cases "localname (etag c)")
  case (Inl e)
  with assms show ?thesis by (simp add: child_step_Inl)
next
  case (Inr n)
  from assms have "d1 = projr (child_step d0 c)" by simp
  then show ?thesis
    unfolding child_step_Inr [OF Inr]
    by (simp add: is_named_def Inr setdefault_apply)
qed

lemma child_step_link:
  assumes "child_step d0 c = Inr d1"
  shows "d1 ''link'' =
    (if is_named [''link''] c \<and> d0 ''link'' = None then Some (py_or (map_of (attrib c) ''href'') (stripped_text (etext c))) else d0 ''link'')"
proof (cases "localname (etag c)")
  case (Inl e)
  with assms show ?thesis by (simp add: child_step_Inl)
next
  case (Inr n)
  from assms have "d1 = projr (child_step d0 c)" by simp
  then show ?thesis
    unfolding child_step_Inr [OF Inr]
    by (simp add: is_named_def Inr setdefault_apply)
qed

text \<open>A key written by direct assignment holds the value of its last occurrence.\<close>

lemma collect_last_wins:
  assumes "collect d0 cs = Inr d"
    and "\<And>a c b. child_step a c = Inr b \<Longrightarrow> b k = (if P c then Some (v c) else a k)"
  shows "d k = (case find P (rev cs) of Some c \<Rightarrow> Some (v c) | None \<Rightarrow> d0 k)"
  using assms(1)
proof (induction cs arbitrary: d0)
  case Nil
  then show ?case by simp
next
  case (Cons c cs)
  then obtain d1 where s: "child_step d0 c = Inr d1" and r: "collect d1 cs = Inr d"
    by (auto split: sum.splits)
  from Cons.IH [OF r] assms(2) [OF s] show ?case
    by (simp add: find_snoc split: option.splits)
qed

text \<open>A key written by \<open>setdefault\<close> holds the value of its first occurrence.\<close>

lemma collect_first_wins:
  assumes "collect d0 cs = Inr d"
    and "\<And>a c b. child_step a c = Inr b \<Longrightarrow> b k = (if P c \<and> a k = None then Some (v c) else a k)"
  shows "d k = (case d0 k of Some x \<Rightarrow> Some x
                | None \<Rightarrow> (case find P cs of Some c \<Rightarrow> Some (v c) | None \<Rightarrow> None))"
  using assms(1)
proof (induction cs arbitrary: d0)
  case Nil
  then show ?case by (simp split: option.splits)
next
  case (Cons c cs)
  then obtain d1 where s: "child_step d0 c = Inr d1" and r: "collect d1 cs = Inr d"
    by (auto split: sum.splits)
  from Cons.IH [OF r] assms(2) [OF s] show ?case
    by (auto split: option.splits)
qed

lemma post_process_other:
  "k \<noteq> ''guid'' \<Longrightarrow> k \<noteq> ''title'' \<Longrightarrow> post_process d k = d k"
  by (simp add: post_process_def setdefault_def Let_def split: option.splits)

lemma post_process_title_present:
  "d ''title'' = Some x \<Longrightarrow> post_process d ''title'' = Some x"
  by (simp add: post_process_def setdefault_def Let_def split: option.splits)

lemma post_process_title_absent:
  "d ''title'' = None \<Longrightarrow>
     pyget (post_process d) ''title'' = py_or (pyget d ''summary'') (Some ''(no title)'')"
  by (simp add: post_process_def setdefault_def Let_def pyget_def split: option.splits)

lemma post_process_guid:
  "pyget (post_process d) ''guid'' =
     (if truthy (pyget d ''guid'') then pyget d ''guid'' else pyget d ''link'')"
  by (simp add: post_process_def setdefault_def Let_def pyget_def split: option.splits)


lemma parse_loop_Cons:
  "parse_loop (x # es) acc = Inr items \<Longrightarrow>
     (is_named [''item'', ''entry''] x \<and>
        (\<exists>d. parse_entry x = Inr d \<and> parse_loop es (acc @ [d]) = Inr items)) \<or>
     (\<not> is_named [''item'', ''entry''] x \<and> parse_loop es acc = Inr items)"
  by (cases "localname (etag x)"; cases "parse_entry x") (simp_all add: is_named_def split: if_splits)

lemma parse_loop_acc:
  "parse_loop es acc = Inr items \<Longrightarrow> set acc \<subseteq> set items"
proof (induction es arbitrary: acc)
  case Nil
  then show ?case by simp
next
  case (Cons x es)
  from parse_loop_Cons [OF Cons.prems] show ?case
  proof (elim disjE conjE exE)
    fix d assume "parse_loop es (acc @ [d]) = Inr items"
    from Cons.IH [OF this] show ?thesis by simp
  next
    assume "parse_loop es acc = Inr items"
    then show ?thesis by (rule Cons.IH)
  qed
qed

lemma parse_loop_mem:
  assumes "parse_loop es acc = Inr items" "e \<in> set es" "is_named [''item'', ''entry''] e"
  shows "\<exists>d \<in> set items. parse_entry e = Inr d"
  using assms(1,2)
proof (induction es arbitrary: acc)
  case Nil
  then show ?case by simp
next
  case (Cons x es)
  from parse_loop_Cons [OF Cons.prems(1)] show ?case
  proof (elim disjE conjE exE)
    fix d assume d: "parse_entry x = Inr d" and r: "parse_loop es (acc @ [d]) = Inr items"
    show ?thesis
    proof (cases "e = x")
      case True
      from parse_loop_acc [OF r] have "d \<in> set items" by simp
      with d True show ?thesis by blast
    next
      case False
      with Cons.prems(2) have "e \<in> set es" by simp
      with r show ?thesis by (rule Cons.IH)
    qed
  next
    assume n: "\<not> is_named [''item'', ''entry''] x" and r: "parse_loop es acc = Inr items"
    from n assms(3) have "e \<noteq> x" by blast
    with Cons.prems(2) have "e \<in> set es" by simp
    with r show ?thesis by (rule Cons.IH)
  qed
qed

lemmas parse_eval =
  fields_of_def leaf_def rss_feed_def atom_feed_def atom_entry_def parse_rss_def parse_entry_def
  child_step_def localname_def stripped_text_def truthy_def py_or_def post_process_def
  setdefault_def pyget_def strip_def is_space_def Let_def

section \<open>Fallbacks of the parser\<close>

text \<open>
  C3. The guid fallback tests the value (\<open>if not data.get("guid")\<close>), the title fallback
  tests the key (\<open>setdefault\<close>). An item whose \<open>title\<close> element is present and empty has the
  key \<open>title\<close> set to \<open>None\<close>, so the fallback does not fire: with a summary \<open>foo\<close> the
  title stays null instead of becoming \<open>foo\<close>, and with no summary it stays null instead of
  becoming the placeholder. An empty \<open>guid\<close> element next to a link does get the link.
\<close>

theorem empty_title_element_keeps_null_title:
  "fields_of ''title''
     (parse_rss (rss_feed [leaf ''title'' [] None, leaf ''description'' [] (Some ''foo'')]))
     = Inr [None]
   \<and> fields_of ''summary''
     (parse_rss (rss_feed [leaf ''title'' [] None, leaf ''description'' [] (Some ''foo'')]))
     = Inr [Some ''foo'']
   \<and> fields_of ''title'' (parse_rss (rss_feed [leaf ''title'' [] None])) = Inr [None]
   \<and> fields_of ''guid''
     (parse_rss (rss_feed [leaf ''guid'' [] None, leaf ''link'' [] (Some ''http://a'')]))
     = Inr [Some ''http://a'']"
  by (simp add: parse_eval)

lemma guid_fallback:
  assumes "parse_entry e = Inr d"
  shows "pyget d ''guid'' =
    (case find (is_named [''guid'']) (rev (children e)) of
       Some g \<Rightarrow> if truthy (stripped_text (etext g)) then stripped_text (etext g)
                 else pyget d ''link''
     | None \<Rightarrow> pyget d ''link'')"
proof -
  from assms obtain d0 where c: "collect Map.empty (children e) = Inr d0"
      and d: "d = post_process d0"
    by (auto simp: parse_entry_def split: sum.splits)
  have "d0 ''guid'' = (case find (is_named [''guid'']) (rev (children e)) of
       Some g \<Rightarrow> Some (stripped_text (etext g)) | None \<Rightarrow> Map.empty ''guid'')"
    using c by (rule collect_last_wins) (rule child_step_guid)
  then have g: "pyget d0 ''guid'' = (case find (is_named [''guid'']) (rev (children e)) of
       Some g \<Rightarrow> stripped_text (etext g) | None \<Rightarrow> None)"
    by (simp add: pyget_def split: option.splits)
  have l: "pyget (post_process d0) ''link'' = pyget d0 ''link''"
    by (simp add: pyget_def post_process_other)
  show ?thesis
    unfolding d post_process_guid l g
    by (cases "find (is_named [''guid'']) (rev (children e))") (simp_all add: truthy_def)
qed

lemma title_fallback_when_absent:
  assumes "parse_entry e = Inr d" and "find (is_named [''title'']) (children e) = None"
  shows "pyget d ''title'' = py_or (pyget d ''summary'') (Some ''(no title)'')"
proof -
  from assms obtain d0 where c: "collect Map.empty (children e) = Inr d0"
      and d: "d = post_process d0"
    by (auto simp: parse_entry_def split: sum.splits)
  from assms(2) have "find (is_named [''title'']) (rev (children e)) = None"
    by (simp add: find_None_iff)
  moreover have "d0 ''title'' = (case find (is_named [''title'']) (rev (children e)) of
       Some t \<Rightarrow> Some (stripped_text (etext t)) | None \<Rightarrow> Map.empty ''title'')"
    using c by (rule collect_last_wins) (rule child_step_title)
  ultimately have "d0 ''title'' = None" by simp
  moreover have "pyget d ''summary'' = pyget d0 ''summary''"
    by (simp add: d pyget_def post_process_other)
  ultimately show ?thesis
    by (simp add: d post_process_title_absent)
qed

section \<open>Repeated children of an entry\<close>

text \<open>
  C4 (amended). \<open>title\<close> is assigned directly, so the last \<open>title\<close> child of an entry
  gives the record's title. The summary candidate and \<open>published\<close> are written with
  \<open>setdefault\<close>: when the first \<open>description\<close>/\<open>summary\<close>/\<open>content\<close> child has text, it is
  the record's summary whatever follows, and the first \<open>pubDate\<close>/\<open>published\<close>/\<open>updated\<close>
  child gives \<open>published\<close>.
\<close>

theorem field_extraction_order:
  assumes "parse_entry e = Inr d"
  shows "(\<forall>t. find (is_named [''title'']) (rev (children e)) = Some t
            \<longrightarrow> pyget d ''title'' = stripped_text (etext t))
    \<and> (\<forall>c. find (is_named [''description'', ''summary'', ''content'']) (children e) = Some c
            \<longrightarrow> truthy (stripped_text (etext c))
            \<longrightarrow> pyget d ''summary'' = stripped_text (etext c))
    \<and> (\<forall>c. find (is_named [''pubDate'', ''published'', ''updated'']) (children e) = Some c
            \<longrightarrow> pyget d ''published'' = stripped_text (etext c))"
proof -
  from assms obtain d0 where c: "collect Map.empty (children e) = Inr d0"
      and d: "d = post_process d0"
    by (auto simp: parse_entry_def split: sum.splits)
  have t: "d0 ''title'' = (case find (is_named [''title'']) (rev (children e)) of
       Some t \<Rightarrow> Some (stripped_text (etext t)) | None \<Rightarrow> Map.empty ''title'')"
    using c by (rule collect_last_wins) (rule child_step_title)
  have s: "d0 ''summary'' = (case Map.empty ''summary'' of Some x \<Rightarrow> Some x
       | None \<Rightarrow> (case find (is_named [''description'', ''summary'', ''content'']) (children e) of
                   Some c \<Rightarrow> Some (stripped_text (etext c)) | None \<Rightarrow> None))"
    using c by (rule collect_first_wins) (rule child_step_summary)
  have p: "d0 ''published'' = (case Map.empty ''published'' of Some x \<Rightarrow> Some x
       | None \<Rightarrow> (case find (is_named [''pubDate'', ''published'', ''updated'']) (children e) of
                   Some c \<Rightarrow> Some (stripped_text (etext c)) | None \<Rightarrow> None))"
    using c by (rule collect_first_wins) (rule child_step_published)
  have 1: "\<forall>t. find (is_named [''title'']) (rev (children e)) = Some t
            \<longrightarrow> pyget d ''title'' = stripped_text (etext t)"
    using t by (auto simp: d pyget_def post_process_title_present)
  have 2: "\<forall>c. find (is_named [''description'', ''summary'', ''content'']) (children e) = Some c
            \<longrightarrow> truthy (stripped_text (etext c))
            \<longrightarrow> pyget d ''summary'' = stripped_text (etext c)"
    using s by (auto simp: d pyget_def post_process_other)
  have 3: "\<forall>c. find (is_named [''pubDate'', ''published'', ''updated'']) (children e) = Some c
            \<longrightarrow> pyget d ''published'' = stripped_text (etext c)"
    using p by (auto simp: d pyget_def post_process_other)
  from 1 2 3 show ?thesis by blast
qed

theorem field_extraction_order_witness:
  "\<exists>d. parse_entry sample_entry = Inr d \<and> pyget d ''title'' = Some ''B''
     \<and> pyget d ''summary'' = Some ''first'' \<and> pyget d ''published'' = Some ''2025-10-25T00:00:00Z''"
proof -
  have "\<exists>d. parse_entry sample_entry = Inr d"
    by (simp add: sample_entry_def parse_eval)
  then obtain d where d: "parse_entry sample_entry = Inr d" ..
  have t: "find (is_named [''title'']) (rev (children sample_entry))
      = Some (leaf ''{http://www.w3.org/2005/Atom}title'' [] (Some ''B''))"
    by (simp add: sample_entry_def atom_entry_def leaf_def is_named_def localname_def)
  have s: "find (is_named [''description'', ''summary'', ''content'']) (children sample_entry)
      = Some (leaf ''{http://www.w3.org/2005/Atom}summary'' [] (Some ''first''))"
    by (simp add: sample_entry_def atom_entry_def leaf_def is_named_def localname_def)
  have p: "find (is_named [''pubDate'', ''published'', ''updated'']) (children sample_entry)
      = Some (leaf ''{http://www.w3.org/2005/Atom}updated'' [] (Some ''2025-10-25T00:00:00Z''))"
    by (simp add: sample_entry_def atom_entry_def leaf_def is_named_def localname_def)
  have v: "stripped_text (Some ''B'') = Some ''B''" "stripped_text (Some ''first'') = Some ''first''"
    "stripped_text (Some ''2025-10-25T00:00:00Z'') = Some ''2025-10-25T00:00:00Z''"
    by (simp_all add: stripped_text_def truthy_def strip_def is_space_def)
  from field_extraction_order [OF d] t s p v
  have "pyget d ''title'' = Some ''B'' \<and> pyget d ''summary'' = Some ''first''
      \<and> pyget d ''published'' = Some ''2025-10-25T00:00:00Z''"
    by (simp add: leaf_def truthy_def)
  with d show ?thesis by blast
qed

text \<open>
  The claim as stated, for an item with two \<open>title\<close> children \<open>A\<close> and \<open>B\<close>: the record's
  title is \<open>B\<close>, the later one.
\<close>

theorem first_title_wins_counterexample:
  "fields_of ''title''
     (parse_rss (rss_feed [leaf ''title'' [] (Some ''A''), leaf ''title'' [] (Some ''B'')]))
     = Inr [Some ''B'']"
  by (simp add: parse_eval)

section \<open>The link of an entry\<close>

lemma stripped_text_Some:
  "strip X \<noteq> [] \<Longrightarrow> stripped_text (Some X) = Some (strip X)"
  by (auto simp: stripped_text_def truthy_def strip_def)

text \<open>
  C8 (amended). Tags are compared by local name, so a namespace on the elements changes
  nothing. For an \<open>item\<close> or \<open>entry\<close> anywhere below the root, the record's link comes from
  its first \<open>link\<close> child: the \<open>href\<close> attribute when that is present and not empty, and
  otherwise the element's text with surrounding white space stripped (null when nothing is
  left).
\<close>

theorem link_extraction:
  assumes "parse_rss root = Inr items" and "e \<in> set (descendants root)"
    and "is_named [''item'', ''entry''] e"
    and "find (is_named [''link'']) (children e) = Some l"
  shows "\<exists>d \<in> set items. parse_entry e = Inr d
    \<and> pyget d ''link'' = py_or (map_of (attrib l) ''href'') (stripped_text (etext l))
    \<and> (\<forall>X. map_of (attrib l) ''href'' = Some X \<and> X \<noteq> [] \<longrightarrow> pyget d ''link'' = Some X)
    \<and> (\<forall>X. \<not> truthy (map_of (attrib l) ''href'') \<and> etext l = Some X \<and> strip X \<noteq> []
          \<longrightarrow> pyget d ''link'' = Some (strip X))
    \<and> (\<forall>ns at tx cs. CHR ''}'' \<notin> set ns
          \<longrightarrow> is_named [''link''] (Element (''{'' @ ns @ ''}'' @ ''link'') at tx cs)
            \<and> is_named [''link''] (Element ''link'' at tx cs))"
proof -
  from assms(1) have "parse_loop (descendants root) [] = Inr items"
    by (simp add: parse_rss_def)
  from parse_loop_mem [OF this assms(2,3)]
  obtain d where m: "d \<in> set items" and d: "parse_entry e = Inr d"
    by blast
  from d obtain d0 where c: "collect Map.empty (children e) = Inr d0"
      and p: "d = post_process d0"
    by (auto simp: parse_entry_def split: sum.splits)
  have "d0 ''link'' = (case Map.empty ''link'' of Some x \<Rightarrow> Some x
       | None \<Rightarrow> (case find (is_named [''link'']) (children e) of
           Some c \<Rightarrow> Some (py_or (map_of (attrib c) ''href'') (stripped_text (etext c)))
         | None \<Rightarrow> None))"
    using c by (rule collect_first_wins) (rule child_step_link)
  with assms(4) have "d0 ''link'' = Some (py_or (map_of (attrib l) ''href'') (stripped_text (etext l)))"
    by simp
  then have 1: "pyget d ''link'' = py_or (map_of (attrib l) ''href'') (stripped_text (etext l))"
    by (simp add: p pyget_def post_process_other)
  have 2: "\<forall>X. map_of (attrib l) ''href'' = Some X \<and> X \<noteq> [] \<longrightarrow> pyget d ''link'' = Some X"
    by (simp add: 1 py_or_def truthy_def)
  have 3: "\<forall>X. \<not> truthy (map_of (attrib l) ''href'') \<and> etext l = Some X \<and> strip X \<noteq> []
          \<longrightarrow> pyget d ''link'' = Some (strip X)"
    by (simp add: 1 py_or_def stripped_text_Some)
  have 4: "\<forall>ns at tx cs. CHR ''}'' \<notin> set ns
          \<longrightarrow> is_named [''link''] (Element (''{'' @ ns @ ''}'' @ ''link'') at tx cs)
            \<and> is_named [''link''] (Element ''link'' at tx cs)"
  proof (intro allI impI conjI)
    fix ns :: string and at :: "(string \<times> string) list" and tx :: "string option"
      and cs :: "element list"
    assume "CHR ''}'' \<notin> set ns"
    from localname_namespaced [OF this, of "''link''"]
    show "is_named [''link''] (Element (''{'' @ ns @ ''}'' @ ''link'') at tx cs)"
      by (simp add: is_named_def)
    show "is_named [''link''] (Element ''link'' at tx cs)"
      by (simp add: is_named_def localname_def)
  qed
  from m d 1 2 3 4 show ?thesis by blast
qed

theorem link_extraction_witness:
  "\<exists>items. parse_rss (atom_feed (children sample_entry)) = Inr items
     \<and> sample_entry \<in> set (descendants (atom_feed (children sample_entry)))
     \<and> is_named [''item'', ''entry''] sample_entry
     \<and> (\<exists>d \<in> set items. parse_entry sample_entry = Inr d
           \<and> pyget d ''link'' = Some ''http://example.org/x'')"
proof -
  have "\<exists>items. parse_rss (atom_feed (children sample_entry)) = Inr items"
    by (simp add: sample_entry_def parse_eval)
  then obtain items where i: "parse_rss (atom_feed (children sample_entry)) = Inr items" ..
  have m: "sample_entry \<in> set (descendants (atom_feed (children sample_entry)))"
    by (simp add: sample_entry_def atom_feed_def atom_entry_def)
  have n: "is_named [''item'', ''entry''] sample_entry"
    by (simp add: sample_entry_def atom_entry_def is_named_def localname_def)
  have l: "find (is_named [''link'']) (children sample_entry)
      = Some (leaf ''{http://www.w3.org/2005/Atom}link'' [(''href'', ''http://example.org/x'')] None)"
    by (simp add: sample_entry_def atom_entry_def leaf_def is_named_def localname_def)
  from link_extraction [OF i m n l]
  have "\<exists>d \<in> set items. parse_entry sample_entry = Inr d
           \<and> pyget d ''link'' = Some ''http://example.org/x''"
    by (auto simp: leaf_def)
  with i m n show ?thesis by blast
qed

text \<open>
  The claim as stated, for an RSS item whose \<open>link\<close> text is \<open>http://a\<close> between two
  spaces: the record's link is the stripped text, not the text. And for a \<open>link\<close> with an
  empty \<open>href\<close> and the text \<open>http://a\<close>: the text is taken, not the \<open>href\<close> value.
\<close>

theorem link_text_counterexample:
  "fields_of ''link'' (parse_rss (rss_feed [leaf ''link'' [] (Some '' http://a '')]))
     = Inr [Some ''http://a'']
   \<and> fields_of ''link''
       (parse_rss (rss_feed [leaf ''link'' [(''href'', '''')] (Some ''http://a'')]))
     = Inr [Some ''http://a'']"
  by (simp add: parse_eval)

section \<open>Substitution where nothing matches\<close>

lemma has_match_Nil: "has_match ic p [] \<longleftrightarrow> rx_match ic p [] \<noteq> []"
  by (simp add: has_match_def)

lemma has_match_Cons:
  "has_match ic p (c # cs) \<longleftrightarrow> rx_match ic p (c # cs) \<noteq> [] \<or> has_match ic p cs"
  by (simp add: has_match_def)

lemma re_sub_no_match:
  "\<not> has_match ic p s \<Longrightarrow> re_sub ic p repl adv s = s"
proof (induction s arbitrary: adv)
  case Nil
  then have "rx_match ic p [] = []" by (simp add: has_match_Nil)
  then show ?case by (subst re_sub.simps) simp
next
  case (Cons c cs)
  then have m: "rx_match ic p (c # cs) = []" and n: "\<not> has_match ic p cs"
    by (simp_all add: has_match_Cons)
  from Cons.IH [OF n] have "re_sub ic p repl False cs = cs" .
  with m show ?case by (subst re_sub.simps) simp
qed

lemma fold_re_sub_no_match:
  "list_all (\<lambda>p. \<not> has_match ic p s) ps \<Longrightarrow> fold (\<lambda>p s. re_sub ic p repl False s) ps s = s"
  by (induction ps) (simp_all add: re_sub_no_match)

section \<open>White-space normalisation\<close>

lemma ws_rx_match:
  "rx_match ic ws_rx s = map (\<lambda>j. drop j s) (rev [1..<Suc (length (takeWhile is_space s))])"
proof -
  have "in_cls Space = is_space" by (rule ext) simp
  then show ?thesis by (simp only: ws_rx_def rx_match.simps Let_def option.case)
qed

lemma collapse_Nil: "re_sub ic ws_rx repl adv [] = []"
  by (subst re_sub.simps) (simp add: ws_rx_match)

lemma collapse_other:
  assumes "\<not> is_space c"
  shows "re_sub ic ws_rx repl adv (c # cs) = c # re_sub ic ws_rx repl False cs"
  using assms by (subst re_sub.simps) (simp add: ws_rx_match)

lemma collapse_space:
  assumes "is_space c"
  shows "re_sub ic ws_rx repl adv (c # cs) = repl @ re_sub ic ws_rx repl False (dropWhile is_space cs)"
proof -
  let ?k = "length (takeWhile is_space cs)"
  have "rx_match ic ws_rx (c # cs) =
      drop ?k cs # map (\<lambda>j. drop j (c # cs)) (rev [1..<Suc ?k])"
    using assms by (simp add: ws_rx_match)
  moreover have "drop ?k cs = dropWhile is_space cs"
    by (simp add: dropWhile_eq_drop)
  moreover have "length (dropWhile is_space cs) < length (c # cs)"
    using length_dropWhile_le [of is_space cs] by simp
  ultimately show ?thesis
    by (subst re_sub.simps) simp
qed

lemma single_spaced_collapse:
  "single_spaced (re_sub ic ws_rx '' '' adv s)"
proof (induction "length s" arbitrary: s adv rule: less_induct)
  case less
  show ?case
  proof (cases s)
    case Nil
    then show ?thesis by (simp add: collapse_Nil)
  next
    case (Cons c cs)
    show ?thesis
    proof (cases "is_space c")
      case False
      with less [of cs False] Cons show ?thesis
        by (simp add: collapse_other)
    next
      case True
      let ?r = "dropWhile is_space cs"
      have "length ?r < length s"
        using length_dropWhile_le [of is_space cs] Cons by simp
      then have ih: "single_spaced (re_sub ic ws_rx '' '' False ?r)"
        by (rule less)
      have nxt: "case re_sub ic ws_rx '' '' False ?r of [] \<Rightarrow> True | d # _ \<Rightarrow> \<not> is_space d"
      proof (cases ?r)
        case Nil
        show ?thesis unfolding Nil collapse_Nil by simp
      next
        case (Cons d ds)
        with hd_dropWhile [of is_space cs] have "\<not> is_space d" by simp
        then show ?thesis unfolding Cons by (simp add: collapse_other)
      qed
      have "is_space CHR '' ''" by (simp add: is_space_def)
      with ih nxt True Cons show ?thesis
        by (simp add: collapse_space)
    qed
  qed
qed

lemma collapse_single_spaced:
  "single_spaced t \<Longrightarrow> re_sub ic ws_rx '' '' adv t = t"
proof (induction t arbitrary: adv)
  case Nil
  then show ?case by (simp add: collapse_Nil)
next
  case (Cons c cs)
  then have ih: "re_sub ic ws_rx '' '' False cs = cs" by simp
  show ?case
  proof (cases "is_space c")
    case False
    with ih show ?thesis by (simp add: collapse_other)
  next
    case True
    with Cons.prems have c: "c = CHR '' ''" and "dropWhile is_space cs = cs"
      by (auto split: list.splits)
    with ih True show ?thesis by (simp add: collapse_space)
  qed
qed

lemma single_spaced_tl: "single_spaced (c # cs) \<Longrightarrow> single_spaced cs"
  by simp

lemma single_spaced_dropWhile:
  "single_spaced t \<Longrightarrow> single_spaced (dropWhile P t)"
proof (induction t)
  case Nil
  then show ?case by simp
next
  case (Cons c cs)
  from Cons.prems have "single_spaced cs" by (rule single_spaced_tl)
  with Cons.IH Cons.prems show ?case
    by (cases "P c") simp_all
qed

lemma single_spaced_prefix:
  "single_spaced (xs @ ys) \<Longrightarrow> single_spaced xs"
proof (induction xs)
  case Nil
  then show ?case by simp
next
  case (Cons c xs)
  then have ih: "single_spaced xs" by simp
  from Cons.prems
  have "if is_space c
        then c = CHR '' '' \<and> (case xs @ ys of [] \<Rightarrow> True | d # _ \<Rightarrow> \<not> is_space d) else True"
    by simp
  then have "if is_space c
        then c = CHR '' '' \<and> (case xs of [] \<Rightarrow> True | d # _ \<Rightarrow> \<not> is_space d) else True"
    by (cases xs) (simp_all split: if_splits)
  with ih show ?case by simp
qed

lemma rtrim_prefix:
  "rev (dropWhile P (rev u)) @ rev (takeWhile P (rev u)) = u"
proof -
  have "rev (takeWhile P (rev u) @ dropWhile P (rev u)) = u" by simp
  then show ?thesis by (simp only: rev_append)
qed

lemma single_spaced_strip:
  assumes "single_spaced t"
  shows "single_spaced (strip t)"
proof -
  define a where "a = dropWhile is_space t"
  from assms have "single_spaced a"
    unfolding a_def by (rule single_spaced_dropWhile)
  then have "single_spaced (rev (dropWhile is_space (rev a)) @ rev (takeWhile is_space (rev a)))"
    by (simp only: rtrim_prefix)
  then have "single_spaced (rev (dropWhile is_space (rev a)))"
    by (rule single_spaced_prefix)
  then show ?thesis
    by (simp only: strip_def a_def)
qed

lemma ltrim_rtrim:
  assumes "a = [] \<or> \<not> P (hd a)"
  shows "dropWhile P (rev (dropWhile P (rev a))) = rev (dropWhile P (rev a))"
proof -
  define b where "b = rev (dropWhile P (rev a))"
  have a: "a = b @ rev (takeWhile P (rev a))"
    unfolding b_def by (simp only: rtrim_prefix)
  have "dropWhile P b = b"
  proof (cases b)
    case Nil
    then show ?thesis by simp
  next
    case (Cons x xs)
    with a have "a = x # (xs @ rev (takeWhile P (rev a)))" by simp
    then have "a \<noteq> []" and "hd a = x" by (metis list.distinct(1), metis list.sel(1))
    with assms have "\<not> P x" by simp
    with Cons show ?thesis by simp
  qed
  then show ?thesis by (simp only: b_def)
qed

lemma strip_idem: "strip (strip t) = strip t"
proof -
  define a where "a = dropWhile is_space t"
  have h: "a = [] \<or> \<not> is_space (hd a)"
    unfolding a_def using hd_dropWhile [of is_space t] by blast
  have "strip (strip t) =
      rev (dropWhile is_space (rev (dropWhile is_space (rev (dropWhile is_space (rev a))))))"
    by (simp only: strip_def a_def)
  also have "\<dots> = rev (dropWhile is_space (rev (rev (dropWhile is_space (rev a)))))"
    by (simp only: ltrim_rtrim [of a is_space, OF h])
  also have "\<dots> = rev (dropWhile is_space (rev a))"
    by (simp only: rev_rev_ident dropWhile_idem)
  also have "\<dots> = strip t"
    by (simp only: strip_def a_def)
  finally show ?thesis .
qed

lemma normalise_idem:
  "strip (re_sub ic ws_rx '' '' adv (strip (re_sub ic ws_rx '' '' adv' u)))
     = strip (re_sub ic ws_rx '' '' adv' u)"
proof -
  have "single_spaced (strip (re_sub ic ws_rx '' '' adv' u))"
    by (intro single_spaced_strip single_spaced_collapse)
  then have "re_sub ic ws_rx '' '' adv (strip (re_sub ic ws_rx '' '' adv' u))
      = strip (re_sub ic ws_rx '' '' adv' u)"
    by (rule collapse_single_spaced)
  then show ?thesis
    by (simp only: strip_idem)
qed

section \<open>Properties of the summary cleaners\<close>

lemma scrub_Some:
  assumes "scrub f ps s = Some t"
  shows "t \<noteq> [] \<and> (\<exists>u. t = strip (re_sub False ws_rx '' '' False u))"
  using assms by (auto simp: scrub_def Let_def split: if_splits)

lemma scrub_residue_free:
  assumes "scrub f ps s = Some t"
    and "list_all (\<lambda>p. \<not> has_match True p t) ps"
    and "\<not> has_match False tag_rx t" and "CHR ''&'' \<notin> set t"
  shows "scrub f ps t = Some t"
proof -
  from scrub_Some [OF assms(1)] obtain u where
    t: "t \<noteq> []" and u: "t = strip (re_sub False ws_rx '' '' False u)"
    by blast
  have 1: "fold (\<lambda>p s. re_sub True p '' '' False s) ps t = t"
    using assms(2) by (rule fold_re_sub_no_match)
  have 2: "re_sub False tag_rx '' '' False t = t"
    using assms(3) by (rule re_sub_no_match)
  have 3: "html_unescape f t = t"
    using assms(4) by (simp add: html_unescape_def)
  have 4: "strip (re_sub False ws_rx '' '' False t) = t"
    using normalise_idem [of False False False u] by (simp only: u [symmetric])
  from t show ?thesis
    by (simp add: scrub_def 1 2 3 4)
qed

lemma clean_summary_None: "clean_summary f None = None"
  by (simp add: clean_summary_def truthy_def)

lemma clean_summary_nonempty:
  "t \<noteq> [] \<Longrightarrow> clean_summary f (Some t) = scrub f patterns t"
  by (simp add: clean_summary_def scrub_def truthy_def)

lemma clean_summary_for_snapshot_nonempty:
  "t \<noteq> [] \<Longrightarrow> clean_summary_for_snapshot f (Some t) = scrub f snapshot_patterns t"
  by (simp add: clean_summary_for_snapshot_def scrub_def truthy_def)

lemma clean_summary_result_nonempty:
  "t \<noteq> [] \<Longrightarrow> clean_summary f (Some t) \<noteq> Some []"
  by (auto simp: clean_summary_nonempty dest: scrub_Some)

lemma snapshot_patterns_eq: "snapshot_patterns = patterns"
  by (simp add: snapshot_patterns_def patterns_def)

lemma cleaners_agree:
  assumes "x \<noteq> Some []"
  shows "clean_summary f x = clean_summary_for_snapshot f x"
proof (cases x)
  case None
  then show ?thesis
    by (simp add: clean_summary_def clean_summary_for_snapshot_def truthy_def)
next
  case (Some t)
  with assms have "t \<noteq> []" by simp
  with Some show ?thesis
    by (simp add: clean_summary_nonempty clean_summary_for_snapshot_nonempty
        snapshot_patterns_eq)
qed

text \<open>
  C5 (amended). Cleaning twice gives what cleaning once gives whenever the first result
  has nothing left to remove: it is null, or it holds no match of a boilerplate pattern, no
  tag and no \<open>&\<close>.
\<close>

theorem clean_summary_idempotent_when_residue_free:
  assumes "case clean_summary f x of None \<Rightarrow> True | Some t \<Rightarrow> residue_free t"
  shows "clean_summary f (clean_summary f x) = clean_summary f x"
proof (cases "clean_summary f x")
  case None
  then show ?thesis by (simp add: clean_summary_None)
next
  case (Some t)
  with assms have rf: "residue_free t" by simp
  show ?thesis
  proof (cases "t = []")
    case True
    with Some show ?thesis by (simp add: clean_summary_def truthy_def)
  next
    case False
    from Some obtain s where x: "x = Some s"
      by (cases x) (simp_all add: clean_summary_None)
    from Some False x have "s \<noteq> []"
      by (auto simp: clean_summary_def truthy_def)
    with Some x have "scrub f patterns s = Some t"
      by (simp add: clean_summary_nonempty)
    with rf have "scrub f patterns t = Some t"
      by (intro scrub_residue_free) (simp_all add: residue_free_def)
    with Some False show ?thesis
      by (simp add: clean_summary_nonempty)
  qed
qed

theorem clean_summary_idempotent_witness:
  "clean_summary id (Some ''I AGREE <b>Subscribe</b> now'') = Some ''now'' \<and> residue_free ''now''
   \<and> clean_summary id (clean_summary id (Some ''I AGREE <b>Subscribe</b> now''))
       = clean_summary id (Some ''I AGREE <b>Subscribe</b> now'')"
proof -
  have c: "clean_summary id (Some ''I AGREE <b>Subscribe</b> now'') = Some ''now''"
    by code_simp
  have r: "residue_free ''now''"
    by code_simp
  from c r have "case clean_summary id (Some ''I AGREE <b>Subscribe</b> now'') of
      None \<Rightarrow> True | Some t \<Rightarrow> residue_free t"
    by simp
  from clean_summary_idempotent_when_residue_free [OF this] c r show ?thesis
    by simp
qed

text \<open>
  The claim as stated, at \<open>read<b>more\<close>: the tag is replaced after the phrases were
  removed, so the first pass returns \<open>read more\<close>, which the second pass removes.
\<close>

theorem clean_summary_idempotent_counterexample:
  "clean_summary id (Some ''read<b>more'') = Some ''read more''
   \<and> clean_summary id (clean_summary id (Some ''read<b>more'')) = None"
proof -
  have 1: "clean_summary id (Some ''read<b>more'') = Some ''read more''"
    by code_simp
  have 2: "clean_summary id (Some ''read more'') = None"
    by code_simp
  from 1 2 show ?thesis by simp
qed

text \<open>
  C6. \<open>clean_summary\<close> opens with \<open>if not text: return text\<close>: for the empty string it
  returns the empty string, not null.
\<close>

theorem clean_summary_empty_string:
  "clean_summary f (Some []) = Some []"
  by (simp add: clean_summary_def truthy_def)

text \<open>
  C7. The two inputs of the specification: the cookie banner cleans to null, and
  \<open>I AGREE <b>Subscribe</b> now\<close> cleans to \<open>now\<close>.
\<close>

theorem clean_summary_examples:
  "clean_summary f (Some ''<p>We use cookies to ensure the best experience. Read more</p>'') = None
   \<and> clean_summary f (Some ''I AGREE <b>Subscribe</b> now'') = Some ''now''"
proof -
  have "clean_summary f (Some ''<p>We use cookies to ensure the best experience. Read more</p>'')
      = None"
    by code_simp
  moreover have "clean_summary f (Some ''I AGREE <b>Subscribe</b> now'') = Some ''now''"
    by code_simp
  ultimately show ?thesis by (rule conjI)
qed

text \<open>
  C10. The two cleaners differ at the empty string: \<open>clean_summary\<close> returns it,
  \<open>clean_summary_for_snapshot\<close> returns null.
\<close>

theorem cleaners_differ_on_empty_string:
  "clean_summary f (Some []) = Some [] \<and> clean_summary_for_snapshot f (Some []) = None"
  by (simp add: clean_summary_def clean_summary_for_snapshot_def truthy_def)

end
